theory Spec2Isabelle
  imports Complex_Main
begin

section \<open>JavaScript arithmetic used by the ring engine\<close>

text \<open>
  JavaScript numbers are modelled as \<open>int\<close> where the code handles indices and as
  \<open>real\<close> where it handles animated positions; rounding of IEEE doubles is not
  modelled. The remainder operator \<open>%\<close> truncates towards zero: its result has the
  sign of the dividend. With a zero divisor the source yields NaN; \<open>js_rem\<close> stands
  for \<open>%\<close> with a non-zero divisor only, which every statement below about it
  provides (a positive item count).
\<close>

definition js_rem :: "int \<Rightarrow> int \<Rightarrow> int" where
  "js_rem a b = sgn a * (\<bar>a\<bar> mod \<bar>b\<bar>)"

text \<open>\<open>Math.round\<close> rounds to the nearest integer, halves towards plus infinity.\<close>

definition math_round :: "real \<Rightarrow> int" where
  "math_round x = \<lfloor>x + 1 / 2\<rfloor>"

text \<open>Array indexing: an index outside the array yields \<open>undefined\<close>, here \<open>None\<close>.\<close>

definition item_at :: "'a list \<Rightarrow> int \<Rightarrow> 'a option" where
  "item_at items i = (if 0 \<le> i \<and> i < int (length items) then Some (items ! nat i) else None)"

section \<open>Ring navigation controller (useRingNav)\<close>

text \<open>
  The updater passed to \<open>setIndex\<close> by \<open>move\<close>: \<open>current\<close> is the index held by the
  hook, \<open>itemCount\<close> and \<open>wrap\<close> are the hook's arguments.
\<close>

definition move :: "int \<Rightarrow> bool \<Rightarrow> int \<Rightarrow> int \<Rightarrow> int" where
  "move itemCount wrap delta current =
     (let next = current + delta
      in if wrap then js_rem (js_rem next itemCount + itemCount) itemCount
         else max 0 (min (itemCount - 1) next))"

section \<open>Easing library\<close>

text \<open>
  The keys of the \<open>ease\<close> table; \<open>linear\<close> is written \<open>linear_fn\<close> here. The exponent
  operator \<open>**\<close> is \<open>powr\<close> where the exponent is fractional (base 2 in elastic-out)
  and the square where it is the literal 2; the pre-decrement \<open>--t\<close> makes every later
  occurrence of \<open>t\<close> in the expression read the decremented value. The functions are
  taken over the reals.
\<close>

datatype EaseFn =
  linear_fn | inQuad | outQuad | inOutQuad | inCubic | outCubic | inOutCubic
  | outElastic | outBack | smoothStep | snap

fun ease :: "EaseFn \<Rightarrow> real \<Rightarrow> real" where
  "ease linear_fn t = t"
| "ease inQuad t = t * t"
| "ease outQuad t = t * (2 - t)"
| "ease inOutQuad t = (if t < 0.5 then 2 * t * t else - 1 + (4 - 2 * t) * t)"
| "ease inCubic t = t * t * t"
| "ease outCubic t = (t - 1) * (t - 1) * (t - 1) + 1"
| "ease inOutCubic t =
     (if t < 0.5 then 4 * t * t * t else (t - 1) * (2 * t - 2) * (2 * t - 2) + 1)"
| "ease outElastic t =
     (let p = 0.3 in 2 powr (- 10 * t) * sin (((t - p / 4) * (2 * pi)) / p) + 1)"
| "ease outBack t =
     (let s = 1.70158 in (t - 1) * (t - 1) * ((s + 1) * (t - 1) + s) + 1)"
| "ease smoothStep t = t * t * (3 - 2 * t)"
| "ease snap t =
     (let p = 0.5 in if t < p then 0.5 * (2 * t)\<^sup>2 else 0.5 * (2 - (2 * (1 - t))\<^sup>2))"

section \<open>Circular step animator (useStepAnimation)\<close>

text \<open>The shortest signed path around the ring, as the effect computes it.\<close>

definition step_delta :: "real \<Rightarrow> real \<Rightarrow> real \<Rightarrow> real" where
  "step_delta target current total_n =
     (let delta = target - current
      in if \<bar>delta\<bar> > total_n / 2
         then (if delta > 0 then delta - total_n else delta + total_n)
         else delta)"




text \<open>
  What the frame callback closes over: the arguments of the render whose effect
  scheduled it, and the end value computed by that effect.
\<close>

record AnimClosure =
  c_target :: real
  c_total :: real
  c_duration :: real
  c_easeFn :: EaseFn
  c_endValue :: real

text \<open>
  The hook's state: \<open>current\<close> is the React state returned to the caller, the refs
  are as in the source, \<open>frameRef\<close> holds the pending animation frame (None when
  none is requested), and \<open>shown\<close> lists every value \<open>current\<close> has taken, oldest first.
\<close>

record StepAnim =
  current :: real
  startRef :: real
  startTimeRef :: "real option"
  frameRef :: "AnimClosure option"
  shown :: "real list"

definition setCurrent :: "real \<Rightarrow> StepAnim \<Rightarrow> StepAnim" where
  "setCurrent v s = s\<lparr>current := v, shown := shown s @ [v]\<rparr>"

text \<open>First render: \<open>useState(target)\<close> and \<open>useRef(current)\<close>.\<close>

definition useStepAnimation_init :: "real \<Rightarrow> StepAnim" where
  "useStepAnimation_init target =
     \<lparr>current = target, startRef = target, startTimeRef = None, frameRef = None,
      shown = [target]\<rparr>"

text \<open>
  The effect body, run at time \<open>now\<close> for the arguments of the current render, after
  the previous effect's cleanup has cancelled the pending frame.
\<close>

definition step_effect ::
  "real \<Rightarrow> real \<Rightarrow> real \<Rightarrow> real \<Rightarrow> EaseFn \<Rightarrow> StepAnim \<Rightarrow> StepAnim" where
  "step_effect now target total_n duration easeFn s0 =
     (let s = s0\<lparr>frameRef := None\<rparr>
      in if \<bar>current s - target\<bar> < 0.001 then setCurrent target s
         else
           let delta = step_delta target (current s) total_n;
               endValue = current s + delta
           in s\<lparr>startRef := current s, startTimeRef := Some now,
                frameRef := Some \<lparr>c_target = target, c_total = total_n,
                  c_duration = duration, c_easeFn = easeFn, c_endValue = endValue\<rparr>\<rparr>)"









section \<open>Visible window builder (Ring)\<close>

record 'a slot =
  item :: "'a option"
  index :: int
  depth :: int
  offset :: int

text \<open>The body of the \<open>for\<close> loop at offset \<open>i\<close>: the slot it pushes.\<close>

definition slot_at :: "'a list \<Rightarrow> real \<Rightarrow> int \<Rightarrow> 'a slot" where
  "slot_at items animatedPosition i =
     (let depth = \<bar>i\<bar>;
          itemIndex = math_round animatedPosition + i;
          itemIndex = js_rem (js_rem itemIndex (int (length items)) + int (length items))
                        (int (length items))
      in \<lparr>item = item_at items itemIndex, index = itemIndex, depth = depth, offset = i\<rparr>)"

text \<open>The loop from offset \<open>i\<close> up to \<open>halfVisible\<close>, pushing in order.\<close>

function slots_from :: "'a list \<Rightarrow> real \<Rightarrow> int \<Rightarrow> int \<Rightarrow> 'a slot list" where
  "slots_from items animatedPosition halfVisible i =
     (if i \<le> halfVisible
      then slot_at items animatedPosition i
           # slots_from items animatedPosition halfVisible (i + 1)
      else [])"
  by pat_completeness auto
termination
  by (relation "measure (\<lambda>(items, animatedPosition, halfVisible, i). nat (halfVisible + 1 - i))")
    auto

declare slots_from.simps [simp del]

definition visibleSlots :: "'a list \<Rightarrow> real \<Rightarrow> int \<Rightarrow> 'a slot list" where
  "visibleSlots items animatedPosition visibleItems =
     (let halfVisible = visibleItems div 2
      in slots_from items animatedPosition halfVisible (- halfVisible))"

text \<open>
  The rest of what \<open>Ring\<close> derives from its props: the target index is the
  controlled index when one is supplied, the animated position of the first render
  is the animator's initial state, and the selected item is looked up with a single
  remainder.
\<close>

definition targetIndex :: "int option \<Rightarrow> int \<Rightarrow> int" where
  "targetIndex controlledIndex internalIndex =
     (case controlledIndex of Some c \<Rightarrow> c | None \<Rightarrow> internalIndex)"

definition selectedItem :: "'a list \<Rightarrow> real \<Rightarrow> 'a option" where
  "selectedItem items animatedPosition =
     item_at items (js_rem (math_round animatedPosition) (int (length items)))"

section \<open>Input dispatcher (useRingInput)\<close>

datatype InputAction =
  Up | Down | Left | Right | Press | DoublePress | LongPress | Escape | Tab

record InputState =
  lastAction :: "InputAction option"
  isLongPressing :: bool
  pressCount :: nat

text \<open>Which of the optional callbacks the caller has supplied.\<close>

record InputHandlers =
  onUp :: bool
  onDown :: bool
  onLeft :: bool
  onRight :: bool
  onPress :: bool
  onDoublePress :: bool
  onLongPress :: bool
  onLongPressEnd :: bool
  onEscape :: bool
  onTab :: bool

text \<open>The flags of a key event that the handler reads; \<open>input\<close> travels beside them.\<close>

record Key =
  upArrow :: bool
  downArrow :: bool
  leftArrow :: bool
  rightArrow :: bool
  tab :: bool
  escape :: bool
  return :: bool

text \<open>
  Timing constants of \<open>TIMING\<close> in the theme tokens, in milliseconds.
\<close>

definition DOUBLE_PRESS_WINDOW :: int where
  "DOUBLE_PRESS_WINDOW = 250"

definition LONG_PRESS_THRESHOLD :: int where
  "LONG_PRESS_THRESHOLD = 400"

text \<open>
  The runtime's timer queue is part of the state: \<open>setTimeout\<close> appends a pending
  timeout under a fresh handle, \<open>clearTimeout\<close> removes the timeout with that handle
  (and does nothing for a handle that has fired or been cleared). The two callbacks
  the hook ever schedules are named by \<open>TimerCallback\<close>.
\<close>

datatype TimerCallback = LongPressCb | DoublePressCb

record Timeout =
  handle :: nat
  due :: int
  callback :: TimerCallback

text \<open>What the hook does to the outside: a call of \<open>dispatch\<close>, a caller's callback
  invoked by it, or \<open>exit()\<close>.\<close>

datatype Effect = Dispatched InputAction | Called InputAction | Exited

record Dispatcher =
  state :: InputState
  pressStartRef :: "int option"
  lastPressRef :: int
  longPressTimerRef :: "nat option"
  doublePressTimerRef :: "nat option"
  pendingPressRef :: bool
  timers :: "Timeout list"
  nextHandle :: nat
  effects :: "Effect list"

definition useRingInput_init :: Dispatcher where
  "useRingInput_init =
     \<lparr>state = \<lparr>lastAction = None, isLongPressing = False, pressCount = 0\<rparr>,
      pressStartRef = None, lastPressRef = 0,
      longPressTimerRef = None, doublePressTimerRef = None,
      pendingPressRef = False, timers = [], nextHandle = 1, effects = []\<rparr>"

definition setTimeout :: "TimerCallback \<Rightarrow> int \<Rightarrow> int \<Rightarrow> Dispatcher \<Rightarrow> nat \<times> Dispatcher" where
  "setTimeout cb delay now d =
     (nextHandle d,
      d\<lparr>timers := timers d @ [\<lparr>handle = nextHandle d, due = now + delay, callback = cb\<rparr>],
        nextHandle := nextHandle d + 1\<rparr>)"

definition clearTimeout :: "nat \<Rightarrow> Dispatcher \<Rightarrow> Dispatcher" where
  "clearTimeout h d = d\<lparr>timers := filter (\<lambda>t. handle t \<noteq> h) (timers d)\<rparr>"

definition clearTimers :: "Dispatcher \<Rightarrow> Dispatcher" where
  "clearTimers d =
     (let d1 = (case longPressTimerRef d of
                  Some h \<Rightarrow> (clearTimeout h d)\<lparr>longPressTimerRef := None\<rparr>
                | None \<Rightarrow> d)
      in (case doublePressTimerRef d1 of
            Some h \<Rightarrow> (clearTimeout h d1)\<lparr>doublePressTimerRef := None\<rparr>
          | None \<Rightarrow> d1))"

fun has_handler :: "InputHandlers \<Rightarrow> InputAction \<Rightarrow> bool" where
  "has_handler hs Up = onUp hs"
| "has_handler hs Down = onDown hs"
| "has_handler hs Left = onLeft hs"
| "has_handler hs Right = onRight hs"
| "has_handler hs Press = onPress hs"
| "has_handler hs DoublePress = onDoublePress hs"
| "has_handler hs LongPress = onLongPress hs"
| "has_handler hs Escape = onEscape hs"
| "has_handler hs Tab = onTab hs"

definition dispatch :: "InputHandlers \<Rightarrow> InputAction \<Rightarrow> Dispatcher \<Rightarrow> Dispatcher" where
  "dispatch hs action d =
     d\<lparr>state := (state d)\<lparr>lastAction := Some action\<rparr>,
       effects := effects d
         @ (Dispatched action # (if has_handler hs action then [Called action] else []))\<rparr>"

definition bump_pressCount :: "Dispatcher \<Rightarrow> Dispatcher" where
  "bump_pressCount d = d\<lparr>state := (state d)\<lparr>pressCount := pressCount (state d) + 1\<rparr>\<rparr>"

text \<open>The callback of the long-press timer.\<close>

definition longPress_fire :: "InputHandlers \<Rightarrow> Dispatcher \<Rightarrow> Dispatcher" where
  "longPress_fire hs d =
     (let d1 = d\<lparr>state := (state d)\<lparr>isLongPressing := True\<rparr>\<rparr>;
          d2 = dispatch hs LongPress d1
      in d2\<lparr>pressStartRef := None, pendingPressRef := False\<rparr>)"

text \<open>The callback of the double-press timer.\<close>

definition doublePress_fire :: "InputHandlers \<Rightarrow> Dispatcher \<Rightarrow> Dispatcher" where
  "doublePress_fire hs d =
     (let d1 = (if pendingPressRef d \<and> pressStartRef d \<noteq> None
                then (let d2 = (case longPressTimerRef d of
                                  Some h \<Rightarrow> clearTimeout h d
                                | None \<Rightarrow> d)
                      in bump_pressCount (dispatch hs Press d2))
                else d)
      in d1\<lparr>pendingPressRef := False\<rparr>)"

fun run_callback :: "InputHandlers \<Rightarrow> TimerCallback \<Rightarrow> Dispatcher \<Rightarrow> Dispatcher" where
  "run_callback hs LongPressCb d = longPress_fire hs d"
| "run_callback hs DoublePressCb d = doublePress_fire hs d"

text \<open>
  Time passing up to \<open>now\<close>: the timeouts that are due run one at a time, the one
  with the earliest deadline first and, among equal deadlines, the one set first.
  A timeout leaves the queue when it runs.
\<close>

fun earliest :: "Timeout \<Rightarrow> Timeout list \<Rightarrow> Timeout" where
  "earliest t [] = t"
| "earliest t (u # us) = earliest (if due u < due t then u else t) us"

definition due_timers :: "int \<Rightarrow> Dispatcher \<Rightarrow> Timeout list" where
  "due_timers now d = filter (\<lambda>t. due t \<le> now) (timers d)"

function run_timers :: "InputHandlers \<Rightarrow> int \<Rightarrow> Dispatcher \<Rightarrow> Dispatcher" where
  "run_timers hs now d =
     (case due_timers now d of
        [] \<Rightarrow> d
      | t # ts \<Rightarrow>
          run_timers hs now
            (run_callback hs (callback (earliest t ts))
               (clearTimeout (handle (earliest t ts)) d)))"
  by pat_completeness auto
termination
proof (relation "measure (\<lambda>(hs, now, d). length (timers d))", goal_cases)
  case 1
  show ?case by simp
next
  case (2 hs now d t ts)
  have mem: "earliest u us \<in> set (u # us)" for u us
    by (induction us arbitrary: u) auto
  have "earliest t ts \<in> set (due_timers now d)"
    using mem [of t ts] 2 by simp
  then have "earliest t ts \<in> set (timers d)"
    by (simp add: due_timers_def)
  then have less: "length (timers (clearTimeout (handle (earliest t ts)) d)) < length (timers d)"
    by (auto simp: clearTimeout_def intro: length_filter_less)
  have le: "length (timers (run_callback hs cb e)) \<le> length (timers e)" for cb e
    by (cases cb)
      (auto simp: longPress_fire_def doublePress_fire_def dispatch_def bump_pressCount_def
        clearTimeout_def Let_def split: option.splits)
  from less le [of "callback (earliest t ts)" "clearTimeout (handle (earliest t ts)) d"]
  show ?case by simp
qed

declare run_timers.simps [simp del]

text \<open>The handler registered with \<open>useInput\<close>, called at time \<open>now\<close>.\<close>

definition press_variants :: "InputHandlers \<Rightarrow> int \<Rightarrow> Dispatcher \<Rightarrow> Dispatcher" where
  "press_variants hs now d =
     (let d1 = d\<lparr>pressStartRef := Some now\<rparr>;
          d2 = (case longPressTimerRef d1 of Some h \<Rightarrow> clearTimeout h d1 | None \<Rightarrow> d1);
          (h, d3) = setTimeout LongPressCb LONG_PRESS_THRESHOLD now d2;
          d4 = d3\<lparr>longPressTimerRef := Some h\<rparr>;
          d5 = (if now - lastPressRef d4 < DOUBLE_PRESS_WINDOW \<and> pendingPressRef d4
                then bump_pressCount
                       (dispatch hs DoublePress ((clearTimers d4)\<lparr>pendingPressRef := False\<rparr>))
                else
                  (let d6 = d4\<lparr>pendingPressRef := True\<rparr>;
                       d7 = (case doublePressTimerRef d6 of
                               Some h' \<Rightarrow> clearTimeout h' d6
                             | None \<Rightarrow> d6);
                       (h', d8) = setTimeout DoublePressCb DOUBLE_PRESS_WINDOW now d7
                   in d8\<lparr>doublePressTimerRef := Some h'\<rparr>))
      in d5\<lparr>lastPressRef := now\<rparr>)"

definition on_input :: "InputHandlers \<Rightarrow> int \<Rightarrow> Key \<Rightarrow> string \<Rightarrow> Dispatcher \<Rightarrow> Dispatcher" where
  "on_input hs now key input d =
     (if upArrow key \<or> input = ''k'' then dispatch hs Up d
      else if downArrow key \<or> input = ''j'' then dispatch hs Down d
      else if leftArrow key \<or> input = ''h'' then dispatch hs Left d
      else if rightArrow key \<or> input = ''l'' then dispatch hs Right d
      else if tab key then dispatch hs Tab d
      else if escape key \<or> input = ''q''
        then (if onEscape hs then dispatch hs Escape d
              else d\<lparr>effects := effects d @ [Exited]\<rparr>)
      else if return key \<or> input = '' '' then press_variants hs now d
      else d)"

text \<open>
  What happens to a mounted dispatcher: a key event, the passing of time with no
  input, or the unmounting of the component, whose cleanup is \<open>clearTimers\<close>. Each
  carries the clock reading at which it happens; timeouts due at or before that
  reading have run by then.
\<close>

datatype InputEvent = KeyPress int Key string | Wait int | Unmount int

fun input_step :: "InputHandlers \<Rightarrow> InputEvent \<Rightarrow> Dispatcher \<Rightarrow> Dispatcher" where
  "input_step hs (KeyPress now key input) d = on_input hs now key input (run_timers hs now d)"
| "input_step hs (Wait now) d = run_timers hs now d"
| "input_step hs (Unmount now) d = clearTimers (run_timers hs now d)"

fun input_run :: "InputHandlers \<Rightarrow> InputEvent list \<Rightarrow> Dispatcher \<Rightarrow> Dispatcher" where
  "input_run hs [] d = d"
| "input_run hs (e # es) d = input_run hs es (input_step hs e d)"

text \<open>Key events and handler sets used below.\<close>

definition no_key :: Key where
  "no_key = \<lparr>upArrow = False, downArrow = False, leftArrow = False, rightArrow = False,
             tab = False, escape = False, return = False\<rparr>"

definition enter_key :: Key where
  "enter_key = no_key\<lparr>return := True\<rparr>"

definition escape_key :: Key where
  "escape_key = no_key\<lparr>escape := True\<rparr>"

definition all_handlers :: InputHandlers where
  "all_handlers =
     \<lparr>onUp = True, onDown = True, onLeft = True, onRight = True, onPress = True,
      onDoublePress = True, onLongPress = True, onLongPressEnd = True, onEscape = True,
      onTab = True\<rparr>"

text \<open>A key event that reaches the Enter/Space branch of the handler.\<close>

definition is_activate :: "Key \<Rightarrow> string \<Rightarrow> bool" where
  "is_activate key input =
     (\<not> (upArrow key \<or> input = ''k'') \<and> \<not> (downArrow key \<or> input = ''j'')
      \<and> \<not> (leftArrow key \<or> input = ''h'') \<and> \<not> (rightArrow key \<or> input = ''l'')
      \<and> \<not> tab key \<and> \<not> (escape key \<or> input = ''q'')
      \<and> (return key \<or> input = '' ''))"

text \<open>A key event that reaches the Escape/quit branch of the handler.\<close>

definition is_escape :: "Key \<Rightarrow> string \<Rightarrow> bool" where
  "is_escape key input =
     (\<not> (upArrow key \<or> input = ''k'') \<and> \<not> (downArrow key \<or> input = ''j'')
      \<and> \<not> (leftArrow key \<or> input = ''h'') \<and> \<not> (rightArrow key \<or> input = ''l'')
      \<and> \<not> tab key \<and> (escape key \<or> input = ''q''))"

text \<open>The effects of one call of \<open>dispatch\<close>.\<close>

definition dispatched :: "InputHandlers \<Rightarrow> InputAction \<Rightarrow> Effect list" where
  "dispatched hs action =
     Dispatched action # (if has_handler hs action then [Called action] else [])"

text \<open>
  What every reachable dispatcher state satisfies: a pending long-press timeout is the
  one held by its ref, is due 400 ms after the last press and has a pending
  double-press timeout beside it; a pending double-press timeout is the one held by
  its ref, is due 250 ms after the last press, and a press is then pending. Handles
  held by the refs have been issued.
\<close>

definition timers_ok :: "Dispatcher \<Rightarrow> bool" where
  "timers_ok d =
     ((\<forall>t \<in> set (timers d).
         (callback t = LongPressCb \<longrightarrow>
            longPressTimerRef d = Some (handle t)
            \<and> due t = lastPressRef d + LONG_PRESS_THRESHOLD
            \<and> (\<exists>u \<in> set (timers d). callback u = DoublePressCb))
         \<and> (callback t = DoublePressCb \<longrightarrow>
            doublePressTimerRef d = Some (handle t)
            \<and> due t = lastPressRef d + DOUBLE_PRESS_WINDOW
            \<and> pendingPressRef d \<and> pressStartRef d \<noteq> None))
      \<and> (\<forall>h. longPressTimerRef d = Some h \<longrightarrow> h < nextHandle d)
      \<and> (\<forall>h. doublePressTimerRef d = Some h \<longrightarrow> h < nextHandle d))"

section \<open>Facts about the truncating remainder\<close>

lemma js_rem_nonneg: "0 \<le> a \<Longrightarrow> 0 < b \<Longrightarrow> js_rem a b = a mod b"
  by (cases "a = 0") (simp_all add: js_rem_def)

lemma js_rem_neg: "a < 0 \<Longrightarrow> 0 < b \<Longrightarrow> js_rem a b = - ((- a) mod b)"
  by (simp add: js_rem_def)

lemma js_rem_bounds: "0 < b \<Longrightarrow> - b < js_rem a b \<and> js_rem a b < b"
proof (cases "0 \<le> a")
  case True
  assume b: "0 < b"
  have "0 \<le> a mod b" "a mod b < b" using b by simp_all
  with True b show ?thesis by (simp add: js_rem_nonneg)
next
  case False
  assume b: "0 < b"
  from False have a: "a < 0" by simp
  have "0 \<le> (- a) mod b" "(- a) mod b < b" using b by simp_all
  with a b show ?thesis by (simp add: js_rem_neg)
qed

lemma js_rem_cong: "0 < b \<Longrightarrow> js_rem a b mod b = a mod b"
proof (cases "0 \<le> a")
  case True
  assume "0 < b"
  with True show ?thesis by (simp add: js_rem_nonneg)
next
  case False
  assume b: "0 < b"
  from False have a: "a < 0" by simp
  have "(- ((- a) mod b)) mod b = (- (- a)) mod b"
    by (rule mod_minus_cong) simp
  with a b show ?thesis by (simp add: js_rem_neg)
qed

text \<open>The double-remainder idiom of the source is the mathematical (floored) modulus.\<close>

lemma js_wrap_eq_mod:
  assumes "0 < n"
  shows "js_rem (js_rem a n + n) n = a mod n"
proof -
  from js_rem_bounds [OF assms, of a] have "0 \<le> js_rem a n + n" by simp
  then have "js_rem (js_rem a n + n) n = (js_rem a n + n) mod n"
    using assms by (rule js_rem_nonneg)
  also have "\<dots> = js_rem a n mod n" by simp
  also have "\<dots> = a mod n" using assms by (rule js_rem_cong)
  finally show ?thesis .
qed

lemma js_wrap_range:
  assumes "0 < n"
  shows "0 \<le> js_rem (js_rem a n + n) n \<and> js_rem (js_rem a n + n) n < n"
  using assms by (simp add: js_wrap_eq_mod)

section \<open>Claims about the navigation controller\<close>

text \<open>
  C5. For every count > 0, index in [0, count) and integer delta, move(delta) yields
  ((index + delta) % count + count) % count when wrap is enabled, which is the
  mathematical residue of index + delta modulo count and lies in [0, count), and
  max(0, min(count - 1, index + delta)) when wrap is disabled. In particular move(-1)
  at index 0 over count 5 yields 4 with wrap and 0 without.
\<close>

theorem move_wrap_or_clamp:
  fixes count delta idx :: int
  assumes "0 < count" and "0 \<le> idx" and "idx < count"
  shows "move count True delta idx
           = js_rem (js_rem (idx + delta) count + count) count
       \<and> move count True delta idx = (idx + delta) mod count
       \<and> 0 \<le> move count True delta idx \<and> move count True delta idx < count
       \<and> move count False delta idx = max 0 (min (count - 1) (idx + delta))
       \<and> 0 \<le> move count False delta idx \<and> move count False delta idx < count
       \<and> move 5 True (- 1) 0 = 4 \<and> move 5 False (- 1) 0 = 0"
proof -
  have w: "move count True delta idx = js_rem (js_rem (idx + delta) count + count) count"
    by (simp add: move_def)
  have c: "move count False delta idx = max 0 (min (count - 1) (idx + delta))"
    by (simp add: move_def)
  have e1: "move 5 True (- 1) 0 = 4"
    by (simp add: move_def js_rem_def)
  have e2: "move 5 False (- 1) 0 = 0"
    by (simp add: move_def)
  from assms(1) have r: "0 \<le> max 0 (min (count - 1) (idx + delta))"
    "max 0 (min (count - 1) (idx + delta)) < count" by simp_all
  show ?thesis
    using w c e1 e2 r js_wrap_eq_mod [OF assms(1), of "idx + delta"] assms(1)
    by simp
qed

theorem move_wrap_or_clamp_witness:
  "(0::int) < 5 \<and> (0::int) \<le> 0 \<and> (0::int) < 5
   \<and> move 5 True 7 0 = 2 \<and> move 5 True (- 1) 0 = 4 \<and> move 5 False (- 1) 0 = 0"
  using move_wrap_or_clamp [of 5 0 7] by simp

section \<open>Claims about the easing library\<close>

lemma sin_elastic_end: "sin (((1 - 0.3 / 4) * (2 * pi)) / 0.3) = 1 / 2"
proof -
  have e: "((1 - 0.3 / 4) * (2 * pi)) / 0.3 = pi / 6 + 6 * pi" by simp
  have "sin (pi / 6 + 6 * pi) = sin (pi / 6) * cos (6 * pi) + cos (pi / 6) * sin (6 * pi)"
    by (rule sin_add)
  also have "\<dots> = 1 / 2" by (simp add: sin_30)
  finally show ?thesis by (simp only: e)
qed

lemma ease_outElastic_one: "ease outElastic 1 = 1 + 1 / 2048"
proof -
  have p: "(2::real) powr (- 10) = 1 / 1024"
    by (simp add: powr_minus_divide)
  have "ease outElastic 1 = 2 powr (- 10 * 1) * sin (((1 - 0.3 / 4) * (2 * pi)) / 0.3) + 1"
    by (simp only: ease.simps Let_def)
  also have "\<dots> = 2 powr (- 10) * (1 / 2) + 1"
    by (simp only: sin_elastic_end mult_1_right)
  also have "\<dots> = 1 + 1 / 2048"
    by (simp add: p)
  finally show ?thesis .
qed

lemma ease_one: "f \<noteq> outElastic \<Longrightarrow> ease f 1 = 1"
  by (cases f) (simp_all add: Let_def)

lemma ease_zero: "ease f 0 = 0"
  by (cases f) (simp_all add: Let_def sin_minus)

text \<open>
  C7, as stated: every easing function f satisfies f(0) = 0 and f(1) = 1, elastic-out
  and back-out included. The elastic-out formula is not 1 at progress 1: its sine
  factor is sin(37 pi / 6) = 1/2 there, so the value is 1 + 2^-11.
\<close>

theorem ease_endpoints_counterexample:
  "\<not> (ease outElastic 0 = 0 \<and> ease outElastic 1 = 1)"
  by (simp only: ease_outElastic_one) simp

text \<open>
  C7, amended: every easing function f satisfies f(0) = 0; every variant other than
  elastic-out, back-out included, satisfies f(1) = 1; elastic-out ends at
  f(1) = 1 + 1/2048.
\<close>

theorem ease_endpoints:
  "ease f 0 = 0 \<and> (f \<noteq> outElastic \<longrightarrow> ease f 1 = 1) \<and> ease outElastic 1 = 1 + 1 / 2048"
  using ease_zero [of f] ease_one [of f] ease_outElastic_one by simp

theorem ease_endpoints_witness:
  "outBack \<noteq> outElastic \<and> ease outBack 0 = 0 \<and> ease outBack 1 = 1
   \<and> ease outElastic 1 = 1 + 1 / 2048"
  using ease_endpoints [of outBack] by simp

section \<open>Claims about the circular step animator\<close>

lemma step_delta_cases:
  "step_delta target cur total_n =
     (if \<bar>target - cur\<bar> > total_n / 2
      then (if target - cur > 0 then target - cur - total_n else target - cur + total_n)
      else target - cur)"
  by (simp add: step_delta_def Let_def)

lemma far_representative:
  fixes d total_n :: real and m :: int
  assumes "0 < total_n" "\<bar>d\<bar> \<le> total_n / 2" "m \<noteq> 0"
  shows "\<bar>d\<bar> \<le> \<bar>d + of_int m * total_n\<bar>"
proof -
  have "1 \<le> \<bar>of_int m :: real\<bar>" using assms(3) by (simp add: abs_if)
  then have "total_n \<le> \<bar>of_int m :: real\<bar> * total_n" using assms(1) by simp
  also have "\<dots> = \<bar>of_int m * total_n\<bar>" using assms(1) by (simp add: abs_mult)
  finally have "total_n \<le> \<bar>of_int m * total_n\<bar>" .
  moreover have "\<bar>of_int m * total_n\<bar> \<le> \<bar>d + of_int m * total_n\<bar> + \<bar>d\<bar>"
    by linarith
  ultimately show ?thesis using assms(2) by linarith
qed

text \<open>
  C2. For every total > 0 and every current, target in [0, total), the travel delta
  computed by the effect is target - current, replaced by delta - total when it exceeds
  total/2 and by delta + total when it is below -total/2; its magnitude is at most
  total/2; and it is the shortest circular path: no other representative
  target - current + k total, k an integer, is shorter.
\<close>

theorem step_delta_shortest:
  assumes "0 < total_n" and "0 \<le> cur" and "cur < total_n"
    and "0 \<le> target" and "target < total_n"
  shows "step_delta target cur total_n =
           (if \<bar>target - cur\<bar> > total_n / 2
            then (if target - cur > 0 then target - cur - total_n else target - cur + total_n)
            else target - cur)
       \<and> \<bar>step_delta target cur total_n\<bar> \<le> total_n / 2
       \<and> (\<forall>k::int. \<bar>step_delta target cur total_n\<bar> \<le> \<bar>target - cur + of_int k * total_n\<bar>)"
proof -
  let ?d = "step_delta target cur total_n"
  note c = step_delta_cases [of target cur total_n]
  have b: "\<bar>?d\<bar> \<le> total_n / 2"
    using assms by (auto simp: step_delta_def Let_def abs_if split: if_splits)
  obtain j :: int where j: "?d = target - cur + of_int j * total_n"
  proof (cases "\<bar>target - cur\<bar> > total_n / 2")
    case False
    then have "?d = target - cur + of_int 0 * total_n" by (simp add: c)
    then show ?thesis by (rule that)
  next
    case True
    show ?thesis
    proof (cases "target - cur > 0")
      case True
      with \<open>\<bar>target - cur\<bar> > total_n / 2\<close> have "?d = target - cur + of_int (- 1) * total_n"
        by (simp add: c)
      then show ?thesis by (rule that)
    next
      case False
      with \<open>\<bar>target - cur\<bar> > total_n / 2\<close> have "?d = target - cur + of_int 1 * total_n"
        by (simp add: c)
      then show ?thesis by (rule that)
    qed
  qed
  have m: "\<bar>?d\<bar> \<le> \<bar>target - cur + of_int k * total_n\<bar>" for k :: int
  proof (cases "k = j")
    case True
    then show ?thesis using j by simp
  next
    case False
    then have "k - j \<noteq> 0" by simp
    from far_representative [OF assms(1) b this]
    have "\<bar>?d\<bar> \<le> \<bar>?d + of_int (k - j) * total_n\<bar>" .
    also have "?d + of_int (k - j) * total_n = target - cur + of_int k * total_n"
      by (subst j) (simp add: algebra_simps)
    finally show ?thesis .
  qed
  from c b m show ?thesis by blast
qed

theorem step_delta_shortest_witness:
  "(0::real) < 5 \<and> (0::real) \<le> 4 \<and> (4::real) < 5 \<and> (0::real) \<le> 0 \<and> (0::real) < 5
   \<and> step_delta 0 4 5 = 1 \<and> \<bar>step_delta 0 4 5\<bar> \<le> 5 / 2
   \<and> \<bar>step_delta 0 4 5\<bar> \<le> \<bar>(0::real) - 4 + of_int 0 * 5\<bar>"
proof -
  have h: "(0::real) < 5" "(0::real) \<le> 4" "(4::real) < 5" "(0::real) \<le> 0" "(0::real) < 5"
    by simp_all
  note t = step_delta_shortest [OF h]
  have a: "step_delta 0 4 5 = 1"
    using t [THEN conjunct1] by simp
  have b: "\<bar>step_delta 0 4 5\<bar> \<le> 5 / 2"
    by (rule t [THEN conjunct2, THEN conjunct1])
  have c: "\<bar>step_delta 0 4 5\<bar> \<le> \<bar>(0::real) - 4 + of_int 0 * 5\<bar>"
    by (rule t [THEN conjunct2, THEN conjunct2, THEN spec])
  from h a b c show ?thesis by (intro conjI)
qed









text \<open>On mounting and after the mount effect the hook returns the target it was given.\<close>

lemma raw_target_returned:
  "current (useStepAnimation_init target) = target
   \<and> current (step_effect now target total_n duration easeFn (useStepAnimation_init target))
       = target"
  by (simp add: step_effect_def useStepAnimation_init_def setCurrent_def Let_def)




section \<open>Claims about the visible window builder\<close>

lemma slots_from_map:
  "slots_from items p h i = map (slot_at items p) [i..h]"
proof (induction items p h i rule: slots_from.induct)
  case (1 items p h i)
  show ?case
  proof (cases "i \<le> h")
    case True
    with "1" have "slots_from items p h (i + 1) = map (slot_at items p) [i + 1..h]"
      by simp
    moreover have "[i..h] = i # [i + 1..h]" using True by (rule upto_rec1)
    ultimately show ?thesis using True
      by (subst slots_from.simps) simp
  next
    case False
    then show ?thesis by (subst slots_from.simps) simp
  qed
qed

lemma visibleSlots_map:
  "visibleSlots items p w = map (slot_at items p) [- (w div 2)..w div 2]"
  by (simp add: visibleSlots_def Let_def slots_from_map)

lemma filter_zero_upto:
  assumes "0 \<le> h"
  shows "filter (\<lambda>i. i = 0) [- h..h] = [0::int]"
proof -
  have "[- h..h] = [- h..0 - 1] @ 0 # [0 + 1..h]"
    using assms by (intro upto_split3) simp_all
  then show ?thesis by (simp add: filter_empty_conv)
qed

lemma length_visibleSlots:
  assumes "odd w" "0 < w"
  shows "length (visibleSlots items p w) = nat w"
proof -
  from assms have "2 * (w div 2) + 1 = w" by presburger
  then show ?thesis using assms by (simp add: visibleSlots_map) 
qed

lemma one_centre:
  assumes "0 < w"
  shows "length (filter (\<lambda>s. depth s = 0) (visibleSlots items p w)) = 1"
proof -
  from assms have h: "0 \<le> w div 2" by simp
  have "filter (\<lambda>s. depth s = 0) (map (slot_at items p) [- (w div 2)..w div 2])
        = map (slot_at items p) (filter (\<lambda>i. \<bar>i\<bar> = 0) [- (w div 2)..w div 2])"
    by (simp add: filter_map o_def slot_at_def Let_def)
  then show ?thesis by (simp add: visibleSlots_map filter_zero_upto [OF h])
qed

lemma slot_props:
  assumes "s \<in> set (visibleSlots items p w)" "0 < length items"
  shows "0 \<le> index s \<and> index s < int (length items)
       \<and> index s = js_rem (js_rem (math_round p + offset s) (int (length items)) + int (length items)) (int (length items))
       \<and> depth s = \<bar>offset s\<bar> \<and> item s = Some (items ! nat (index s))
       \<and> - (w div 2) \<le> offset s \<and> offset s \<le> w div 2"
proof -
  from assms(1) obtain i where i: "s = slot_at items p i" "- (w div 2) \<le> i" "i \<le> w div 2"
    by (auto simp: visibleSlots_map)
  have n: "0 < int (length items)" using assms(2) by simp
  show ?thesis
    using i js_wrap_range [OF n, of "math_round p + i"]
    by (simp add: slot_at_def Let_def item_at_def)
qed

lemma window_of_five:
  "map index (visibleSlots [a, b, c, d, e] 0 5) = [3, 4, 0, 1, 2]"
  "map offset (visibleSlots [a, b, c, d, e] 0 5) = [- 2, - 1, 0, 1, 2]"
  "map item (visibleSlots [a, b, c, d, e] 0 5) = [Some d, Some e, Some a, Some b, Some c]"
  by (simp_all add: visibleSlots_map upto_rec1 slot_at_def math_round_def js_rem_def
      item_at_def Let_def)

text \<open>
  C3. For every odd window size w > 0, every item list of at least w items and every
  real animated position, visibleSlots returns exactly w slots, for the offsets
  -(w div 2) .. w div 2 in order; exactly one slot has depth 0; and every slot at offset
  o has depth |o| and index ((round(position) + o) % N + N) % N, which lies in [0, N)
  and at which the item is defined. With five items, window 5 and position 0 the
  offsets -2..2 carry the indices 3, 4, 0, 1, 2.
\<close>

theorem visibleSlots_window:
  fixes items :: "'a list"
  assumes "odd w" and "0 < w" and "w \<le> int (length items)"
  shows "length (visibleSlots items p w) = nat w
       \<and> map offset (visibleSlots items p w) = [- (w div 2)..w div 2]
       \<and> length (filter (\<lambda>s. depth s = 0) (visibleSlots items p w)) = 1
       \<and> (\<forall>s \<in> set (visibleSlots items p w).
            0 \<le> index s \<and> index s < int (length items)
            \<and> index s = js_rem (js_rem (math_round p + offset s) (int (length items))
                                 + int (length items)) (int (length items))
            \<and> depth s = \<bar>offset s\<bar>
            \<and> item s = Some (items ! nat (index s)))
       \<and> map index (visibleSlots [a, b, c, d, e] 0 5) = [3, 4, 0, 1, 2]
       \<and> map offset (visibleSlots [a, b, c, d, e] 0 5) = [- 2, - 1, 0, 1, 2]"
proof -
  from assms have n: "0 < length items" by auto
  have o: "map offset (visibleSlots items p w) = [- (w div 2)..w div 2]"
    by (simp add: visibleSlots_map o_def slot_at_def Let_def)
  have l: "length (visibleSlots items p w) = nat w"
    by (rule length_visibleSlots [OF assms(1,2)])
  have c: "length (filter (\<lambda>s. depth s = 0) (visibleSlots items p w)) = 1"
    by (rule one_centre [OF assms(2)])
  have r: "\<forall>s \<in> set (visibleSlots items p w).
            0 \<le> index s \<and> index s < int (length items)
            \<and> index s = js_rem (js_rem (math_round p + offset s) (int (length items))
                                 + int (length items)) (int (length items))
            \<and> depth s = \<bar>offset s\<bar>
            \<and> item s = Some (items ! nat (index s))"
    using slot_props [OF _ n] by blast
  have x: "map index (visibleSlots [a, b, c, d, e] 0 5) = [3, 4, 0, 1, 2]"
    "map offset (visibleSlots [a, b, c, d, e] 0 5) = [- 2, - 1, 0, 1, 2]"
    by (rule window_of_five)+
  from l o c r x show ?thesis by - (intro conjI, assumption+)
qed

theorem visibleSlots_window_witness:
  "odd (5::int) \<and> (0::int) < 5 \<and> (5::int) \<le> int (length [''a'', ''b'', ''c'', ''d'', ''e''])
   \<and> length (visibleSlots [''a'', ''b'', ''c'', ''d'', ''e''] (17 / 10) 5) = 5
   \<and> map index (visibleSlots [''a'', ''b'', ''c'', ''d'', ''e''] (17 / 10) 5) = [0, 1, 2, 3, 4]
   \<and> map depth (visibleSlots [''a'', ''b'', ''c'', ''d'', ''e''] (17 / 10) 5) = [2, 1, 0, 1, 2]"
proof -
  have h: "odd (5::int)" "(0::int) < 5" "(5::int) \<le> int (length [''a'', ''b'', ''c'', ''d'', ''e''])"
    by simp_all
  have e: "map index (visibleSlots [''a'', ''b'', ''c'', ''d'', ''e''] (17 / 10) 5) = [0, 1, 2, 3, 4]"
    "map depth (visibleSlots [''a'', ''b'', ''c'', ''d'', ''e''] (17 / 10) 5) = [2, 1, 0, 1, 2]"
    by (simp_all add: visibleSlots_map upto_rec1 slot_at_def math_round_def js_rem_def Let_def)
  from visibleSlots_window [OF h, where p = "17 / 10" and a = "''a''" and b = "''b''"
      and c = "''c''" and d = "''d''" and e = "''e''"] e h
  show ?thesis by simp
qed

section \<open>Claims about the controlled selection\<close>

text \<open>
  C8. An out-of-range controlled index is to be wrapped or clamped before use so that
  no lookup derived from it is undefined. Evaluated at the controlled index -1 over
  the five items a, b, c, d, e, on the first render: the visible slots wrap it (indices 2, 3, 4, 0, 1,
  all defined), but the position returned by the animator is -1 and the selected
  item, looked up with a single remainder, is undefined.
\<close>

theorem controlled_index_negative:
  "current (useStepAnimation_init (of_int (targetIndex (Some (- 1)) 0))) = - 1
   \<and> map item (visibleSlots [''a'', ''b'', ''c'', ''d'', ''e'']
        (current (useStepAnimation_init (of_int (targetIndex (Some (- 1)) 0)))) 5)
       = [Some ''c'', Some ''d'', Some ''e'', Some ''a'', Some ''b'']
   \<and> selectedItem [''a'', ''b'', ''c'', ''d'', ''e'']
        (current (useStepAnimation_init (of_int (targetIndex (Some (- 1)) 0)))) = None"
  by (simp add: selectedItem_def targetIndex_def useStepAnimation_init_def math_round_def
      js_rem_def item_at_def visibleSlots_map upto_rec1 slot_at_def Let_def)

section \<open>The timer queue of the input dispatcher\<close>

lemmas dispatcher_defs =
  on_input_def press_variants_def setTimeout_def clearTimeout_def clearTimers_def
  dispatch_def bump_pressCount_def longPress_fire_def doublePress_fire_def due_timers_def
  useRingInput_init_def no_key_def enter_key_def escape_key_def all_handlers_def
  DOUBLE_PRESS_WINDOW_def LONG_PRESS_THRESHOLD_def Let_def

lemma earliest_mem: "earliest t ts \<in> set (t # ts)"
  by (induction ts arbitrary: t) auto

lemma earliest_least: "u \<in> set (t # ts) \<Longrightarrow> due (earliest t ts) \<le> due u"
proof (induction ts arbitrary: t u)
  case Nil
  then show ?case by simp
next
  case (Cons v vs)
  let ?m = "if due v < due t then v else t"
  have m: "due (earliest ?m vs) \<le> due ?m"
    by (rule Cons.IH) simp
  show ?case
  proof (cases "u \<in> set vs")
    case True
    then have "due (earliest ?m vs) \<le> due u" by (intro Cons.IH) simp
    then show ?thesis by simp
  next
    case False
    with Cons.prems have "u = t \<or> u = v" by auto
    with m show ?thesis by (auto split: if_splits)
  qed
qed

lemma timers_ok_long:
  assumes "timers_ok d" "t \<in> set (timers d)" "callback t = LongPressCb"
  shows "longPressTimerRef d = Some (handle t)"
    and "due t = lastPressRef d + LONG_PRESS_THRESHOLD"
    and "\<exists>u \<in> set (timers d). callback u = DoublePressCb"
  using assms unfolding timers_ok_def by blast+

lemma timers_ok_double:
  assumes "timers_ok d" "t \<in> set (timers d)" "callback t = DoublePressCb"
  shows "doublePressTimerRef d = Some (handle t)"
    and "due t = lastPressRef d + DOUBLE_PRESS_WINDOW"
    and "pendingPressRef d" and "pressStartRef d \<noteq> None"
  using assms unfolding timers_ok_def by blast+

lemma timers_ok_init: "timers_ok useRingInput_init"
  by (simp add: timers_ok_def useRingInput_init_def)

text \<open>The timer that runs next is never the long-press one.\<close>

lemma next_timer_is_double:
  assumes "timers_ok d" "due_timers now d = t # ts"
  shows "callback (earliest t ts) = DoublePressCb"
proof (rule ccontr)
  let ?e = "earliest t ts"
  assume "callback ?e \<noteq> DoublePressCb"
  then have L: "callback ?e = LongPressCb" by (cases "callback ?e") simp_all
  have mem: "?e \<in> set (due_timers now d)" using earliest_mem [of t ts] assms(2) by simp
  then have e: "?e \<in> set (timers d)" "due ?e \<le> now" by (simp_all add: due_timers_def)
  from timers_ok_long [OF assms(1) e(1) L]
  obtain u where u: "u \<in> set (timers d)" "callback u = DoublePressCb"
    and de: "due ?e = lastPressRef d + LONG_PRESS_THRESHOLD"
    by blast
  have du: "due u = lastPressRef d + DOUBLE_PRESS_WINDOW"
    by (rule timers_ok_double [OF assms(1) u])
  from du de e(2) have "due u \<le> now" "due u < due ?e"
    by (simp_all add: DOUBLE_PRESS_WINDOW_def LONG_PRESS_THRESHOLD_def)
  with u(1) have "u \<in> set (due_timers now d)" by (simp add: due_timers_def)
  then have "u \<in> set (t # ts)" by (simp only: assms(2))
  from earliest_least [OF this] \<open>due u < due ?e\<close> show False by simp
qed

text \<open>Running the double-press timer empties the queue and dispatches press.\<close>

lemma double_timer_runs:
  assumes "timers_ok d" "e \<in> set (timers d)" "callback e = DoublePressCb"
  shows "timers (doublePress_fire hs (clearTimeout (handle e) d)) = []"
    and "effects (doublePress_fire hs (clearTimeout (handle e) d)) = effects d @ dispatched hs Press"
    and "timers_ok (doublePress_fire hs (clearTimeout (handle e) d))"
    and "lastPressRef (doublePress_fire hs (clearTimeout (handle e) d)) = lastPressRef d"
    and "\<not> pendingPressRef (doublePress_fire hs (clearTimeout (handle e) d))"
proof -
  from timers_ok_double [OF assms] have p: "pendingPressRef d" "pressStartRef d \<noteq> None"
    "doublePressTimerRef d = Some (handle e)"
    by simp_all
  have all: "\<forall>t \<in> set (timers d). handle t = handle e \<or> longPressTimerRef d = Some (handle t)"
  proof
    fix t assume t: "t \<in> set (timers d)"
    show "handle t = handle e \<or> longPressTimerRef d = Some (handle t)"
    proof (cases "callback t")
      case LongPressCb
      from timers_ok_long(1) [OF assms(1) t this] show ?thesis by simp
    next
      case DoublePressCb
      from timers_ok_double(1) [OF assms(1) t this] p(3) show ?thesis by simp
    qed
  qed
  show t: "timers (doublePress_fire hs (clearTimeout (handle e) d)) = []"
    using p all
    by (auto simp: doublePress_fire_def clearTimeout_def dispatch_def bump_pressCount_def
        Let_def filter_empty_conv split: option.splits)
  show "effects (doublePress_fire hs (clearTimeout (handle e) d)) = effects d @ dispatched hs Press"
    using p
    by (auto simp: doublePress_fire_def clearTimeout_def dispatch_def bump_pressCount_def
        dispatched_def Let_def split: option.splits)
  have r: "longPressTimerRef (doublePress_fire hs (clearTimeout (handle e) d)) = longPressTimerRef d"
    "doublePressTimerRef (doublePress_fire hs (clearTimeout (handle e) d)) = doublePressTimerRef d"
    "nextHandle (doublePress_fire hs (clearTimeout (handle e) d)) = nextHandle d"
    by (auto simp: doublePress_fire_def clearTimeout_def dispatch_def bump_pressCount_def
        Let_def split: option.splits)
  show "timers_ok (doublePress_fire hs (clearTimeout (handle e) d))"
    using assms(1) t r by (simp add: timers_ok_def)
  show "lastPressRef (doublePress_fire hs (clearTimeout (handle e) d)) = lastPressRef d"
    by (auto simp: doublePress_fire_def clearTimeout_def dispatch_def bump_pressCount_def
        Let_def split: option.splits)
  show "\<not> pendingPressRef (doublePress_fire hs (clearTimeout (handle e) d))"
    by (auto simp: doublePress_fire_def Let_def)
qed

lemma run_timers_nothing_due: "due_timers now d = [] \<Longrightarrow> run_timers hs now d = d"
  by (subst run_timers.simps) simp

lemma run_timers_empty: "timers d = [] \<Longrightarrow> run_timers hs now d = d"
  by (rule run_timers_nothing_due) (simp add: due_timers_def)

text \<open>Under the invariant, time passing runs at most the double-press timer.\<close>

lemma run_timers_cases:
  assumes "timers_ok d"
  shows "(due_timers now d = [] \<and> run_timers hs now d = d)
       \<or> (due_timers now d \<noteq> [] \<and> timers (run_timers hs now d) = []
          \<and> effects (run_timers hs now d) = effects d @ dispatched hs Press
          \<and> timers_ok (run_timers hs now d)
          \<and> lastPressRef (run_timers hs now d) = lastPressRef d
          \<and> \<not> pendingPressRef (run_timers hs now d))"
proof (cases "due_timers now d")
  case Nil
  then show ?thesis by (simp add: run_timers_nothing_due)
next
  case (Cons t ts)
  let ?e = "earliest t ts"
  have cb: "callback ?e = DoublePressCb" by (rule next_timer_is_double [OF assms Cons])
  have "?e \<in> set (due_timers now d)" using earliest_mem [of t ts] Cons by simp
  then have mem: "?e \<in> set (timers d)" by (simp add: due_timers_def)
  let ?d' = "doublePress_fire hs (clearTimeout (handle ?e) d)"
  have "run_timers hs now d = run_timers hs now ?d'"
    using Cons cb by (subst run_timers.simps) simp
  also have "\<dots> = ?d'"
    by (rule run_timers_empty) (rule double_timer_runs(1) [OF assms mem cb])
  finally have "run_timers hs now d = ?d'" .
  with double_timer_runs [OF assms mem cb, of hs] Cons show ?thesis by simp
qed


lemma timers_ok_refs:
  assumes "timers_ok d" "t \<in> set (timers d)"
  shows "longPressTimerRef d = Some (handle t) \<or> doublePressTimerRef d = Some (handle t)"
    and "handle t < nextHandle d"
proof -
  show r: "longPressTimerRef d = Some (handle t) \<or> doublePressTimerRef d = Some (handle t)"
  proof (cases "callback t")
    case LongPressCb
    from timers_ok_long(1) [OF assms this] show ?thesis by simp
  next
    case DoublePressCb
    from timers_ok_double(1) [OF assms this] show ?thesis by simp
  qed
  from assms(1) have "\<forall>h. longPressTimerRef d = Some h \<longrightarrow> h < nextHandle d"
    "\<forall>h. doublePressTimerRef d = Some h \<longrightarrow> h < nextHandle d"
    by (simp_all add: timers_ok_def)
  with r show "handle t < nextHandle d" by auto
qed

lemma timers_ok_dispatch [simp]: "timers_ok (dispatch hs a d) = timers_ok d"
  by (simp add: timers_ok_def dispatch_def)

lemma timers_dispatch [simp]: "timers (dispatch hs a d) = timers d"
  by (simp add: dispatch_def)

lemma effects_dispatch: "effects (dispatch hs a d) = effects d @ dispatched hs a"
  by (simp add: dispatch_def dispatched_def)

text \<open>Every pending timeout is held by one of the two refs, so clearTimers empties the queue.\<close>

lemma clearTimers_empties:
  assumes "timers_ok d"
  shows "timers (clearTimers d) = []"
    and "longPressTimerRef (clearTimers d) = None"
    and "doublePressTimerRef (clearTimers d) = None"
    and "effects (clearTimers d) = effects d"
    and "timers_ok (clearTimers d)"
proof -
  have all: "\<forall>t \<in> set (timers d).
      longPressTimerRef d = Some (handle t) \<or> doublePressTimerRef d = Some (handle t)"
    using timers_ok_refs(1) [OF assms] by blast
  show e: "timers (clearTimers d) = []"
    using all
    by (auto simp: clearTimers_def clearTimeout_def Let_def filter_empty_conv
        split: option.splits)
  show r: "longPressTimerRef (clearTimers d) = None" "doublePressTimerRef (clearTimers d) = None"
    by (auto simp: clearTimers_def clearTimeout_def Let_def split: option.splits)
  show "effects (clearTimers d) = effects d"
    by (auto simp: clearTimers_def clearTimeout_def Let_def split: option.splits)
  show "timers_ok (clearTimers d)"
    using e r by (simp add: timers_ok_def)
qed

text \<open>The second press of a double press.\<close>

lemma press_variants_double:
  assumes "timers_ok d" "pendingPressRef d" "now - lastPressRef d < DOUBLE_PRESS_WINDOW"
  shows "timers (press_variants hs now d) = []"
    and "longPressTimerRef (press_variants hs now d) = None"
    and "doublePressTimerRef (press_variants hs now d) = None"
    and "\<not> pendingPressRef (press_variants hs now d)"
    and "effects (press_variants hs now d) = effects d @ dispatched hs DoublePress"
    and "timers_ok (press_variants hs now d)"
proof -
  have all: "\<forall>t \<in> set (timers d).
      (longPressTimerRef d = Some (handle t) \<or> doublePressTimerRef d = Some (handle t))
      \<and> handle t \<noteq> nextHandle d"
    using timers_ok_refs [OF assms(1)] by fastforce
  show e: "timers (press_variants hs now d) = []"
    using all assms(2,3)
    by (auto simp: press_variants_def setTimeout_def clearTimers_def clearTimeout_def
        dispatch_def bump_pressCount_def Let_def filter_empty_conv split: option.splits)
  show r: "longPressTimerRef (press_variants hs now d) = None"
    "doublePressTimerRef (press_variants hs now d) = None"
    using assms(2,3)
    by (auto simp: press_variants_def setTimeout_def clearTimers_def clearTimeout_def
        dispatch_def bump_pressCount_def Let_def split: option.splits)
  show "\<not> pendingPressRef (press_variants hs now d)"
    using assms(2,3)
    by (auto simp: press_variants_def setTimeout_def clearTimers_def clearTimeout_def
        dispatch_def bump_pressCount_def Let_def split: option.splits)
  show "effects (press_variants hs now d) = effects d @ dispatched hs DoublePress"
    using assms(2,3)
    by (auto simp: press_variants_def setTimeout_def clearTimers_def clearTimeout_def
        dispatch_def dispatched_def bump_pressCount_def Let_def split: option.splits)
  show "timers_ok (press_variants hs now d)"
    using e r by (simp add: timers_ok_def)
qed

text \<open>A press that is not the second of a double press arms both timers afresh.\<close>

lemma press_variants_single:
  assumes "timers_ok d" "\<not> (now - lastPressRef d < DOUBLE_PRESS_WINDOW \<and> pendingPressRef d)"
  shows "timers (press_variants hs now d)
           = [\<lparr>handle = nextHandle d, due = now + LONG_PRESS_THRESHOLD, callback = LongPressCb\<rparr>,
              \<lparr>handle = nextHandle d + 1, due = now + DOUBLE_PRESS_WINDOW,
                callback = DoublePressCb\<rparr>]"
    and "effects (press_variants hs now d) = effects d"
    and "timers_ok (press_variants hs now d)"
proof -
  have all: "\<forall>t \<in> set (timers d).
      (longPressTimerRef d = Some (handle t) \<or> doublePressTimerRef d = Some (handle t))
      \<and> handle t \<noteq> nextHandle d"
    using timers_ok_refs [OF assms(1)] by fastforce
  have b: "\<forall>h. doublePressTimerRef d = Some h \<longrightarrow> h \<noteq> nextHandle d"
    using assms(1) by (auto simp: timers_ok_def)
  show e: "timers (press_variants hs now d)
           = [\<lparr>handle = nextHandle d, due = now + LONG_PRESS_THRESHOLD, callback = LongPressCb\<rparr>,
              \<lparr>handle = nextHandle d + 1, due = now + DOUBLE_PRESS_WINDOW,
                callback = DoublePressCb\<rparr>]"
    using all b assms(2)
    by (auto simp: press_variants_def setTimeout_def clearTimeout_def Let_def
        filter_empty_conv split: option.splits)
  show "effects (press_variants hs now d) = effects d"
    using assms(2)
    by (auto simp: press_variants_def setTimeout_def clearTimeout_def Let_def
        split: option.splits)
  have r: "longPressTimerRef (press_variants hs now d) = Some (nextHandle d)"
    "doublePressTimerRef (press_variants hs now d) = Some (nextHandle d + 1)"
    "nextHandle (press_variants hs now d) = nextHandle d + 2"
    "lastPressRef (press_variants hs now d) = now"
    "pendingPressRef (press_variants hs now d)"
    "pressStartRef (press_variants hs now d) = Some now"
    using assms(2)
    by (auto simp: press_variants_def setTimeout_def clearTimeout_def Let_def
        split: option.splits)
  show "timers_ok (press_variants hs now d)"
    using e r by (simp add: timers_ok_def)
qed

lemma press_variants_ok: "timers_ok d \<Longrightarrow> timers_ok (press_variants hs now d)"
  using press_variants_double(6) press_variants_single(3)
  by (cases "now - lastPressRef d < DOUBLE_PRESS_WINDOW \<and> pendingPressRef d") blast+

lemma on_input_ok: "timers_ok d \<Longrightarrow> timers_ok (on_input hs now key input d)"
  by (simp add: on_input_def press_variants_ok) (simp add: timers_ok_def)

lemma run_timers_ok: "timers_ok d \<Longrightarrow> timers_ok (run_timers hs now d)"
  using run_timers_cases [of d now hs] by auto

lemma input_step_ok: "timers_ok d \<Longrightarrow> timers_ok (input_step hs e d)"
  by (cases e) (simp_all add: on_input_ok run_timers_ok clearTimers_empties(5))

lemma input_run_ok: "timers_ok d \<Longrightarrow> timers_ok (input_run hs es d)"
  by (induction es arbitrary: d) (simp_all add: input_step_ok)


lemma input_run_append: "input_run hs (xs @ ys) d = input_run hs ys (input_run hs xs d)"
  by (induction xs arbitrary: d) simp_all

lemma reachable_ok: "timers_ok (input_run hs es useRingInput_init)"
  by (rule input_run_ok) (rule timers_ok_init)

text \<open>No timeout is due before the double-press window of the last press has passed.\<close>

lemma nothing_due_in_window:
  assumes "timers_ok d" "now - lastPressRef d < DOUBLE_PRESS_WINDOW"
  shows "run_timers hs now d = d"
proof (rule run_timers_nothing_due)
  have "\<not> due t \<le> now" if t: "t \<in> set (timers d)" for t
  proof (cases "callback t")
    case LongPressCb
    from timers_ok_long(2) [OF assms(1) t this] assms(2) show ?thesis
      by (simp add: DOUBLE_PRESS_WINDOW_def LONG_PRESS_THRESHOLD_def)
  next
    case DoublePressCb
    from timers_ok_double(2) [OF assms(1) t this] assms(2) show ?thesis
      by (simp add: DOUBLE_PRESS_WINDOW_def)
  qed
  then show "due_timers now d = []"
    by (simp add: due_timers_def filter_empty_conv)
qed

lemma effects_step:
  assumes "timers_ok d" "Dispatched LongPress \<notin> set (effects d)"
  shows "Dispatched LongPress \<notin> set (effects (input_step hs e d))"
proof -
  have rt: "Dispatched LongPress \<notin> set (effects (run_timers hs now d))" for now
    using run_timers_cases [OF assms(1), of now hs] assms(2)
    by (auto simp: dispatched_def)
  have ok: "timers_ok (run_timers hs now d)" for now by (rule run_timers_ok [OF assms(1)])
  show ?thesis
  proof (cases e)
    case (KeyPress now key input)
    let ?r = "run_timers hs now d"
    have "Dispatched LongPress \<notin> set (effects (press_variants hs now ?r))"
    proof (cases "now - lastPressRef ?r < DOUBLE_PRESS_WINDOW \<and> pendingPressRef ?r")
      case True
      then show ?thesis using press_variants_double(5) [OF ok, of now now hs] rt [of now]
        by (simp add: dispatched_def)
    next
      case False
      then show ?thesis using press_variants_single(2) [OF ok, of now now hs] rt [of now]
        by simp
    qed
    then show ?thesis using KeyPress rt [of now]
      by (simp add: on_input_def effects_dispatch dispatched_def)
  next
    case (Wait now)
    then show ?thesis using rt by simp
  next
    case (Unmount now)
    then show ?thesis using rt [of now] clearTimers_empties(4) [OF ok, of now] by simp
  qed
qed

lemma longPress_unreachable_from:
  "timers_ok d \<Longrightarrow> Dispatched LongPress \<notin> set (effects d)
   \<Longrightarrow> Dispatched LongPress \<notin> set (effects (input_run hs es d))"
proof (induction es arbitrary: d)
  case Nil
  then show ?case by simp
next
  case (Cons e es)
  from Cons.prems have "timers_ok (input_step hs e d)"
    "Dispatched LongPress \<notin> set (effects (input_step hs e d))"
    by (simp_all add: input_step_ok effects_step)
  from Cons.IH [OF this] show ?case by simp
qed

lemma longPress_unreachable:
  "Dispatched LongPress \<notin> set (effects (input_run hs es useRingInput_init))"
  by (rule longPress_unreachable_from [OF timers_ok_init]) (simp add: useRingInput_init_def)

section \<open>Claims about the input dispatcher\<close>

text \<open>
  C1. A press of the activate button that is held, with no further press, for at
  least 400 ms is to dispatch exactly one longPress and neither press nor doublePress.
  Evaluated at one Enter press at time 1000 followed by silence until 1400, with every
  callback supplied: the double-press timeout runs at 1250, cancels the long-press
  timeout and dispatches press; no longPress is dispatched, the queue is empty and
  isLongPressing is still false. (By \<open>longPress_unreachable\<close> no sequence of events
  makes the dispatcher dispatch longPress.)
\<close>

theorem held_press_dispatches_press:
  "effects (input_run all_handlers [KeyPress 1000 enter_key [], Wait 1400] useRingInput_init)
     = [Dispatched Press, Called Press]
   \<and> timers (input_run all_handlers [KeyPress 1000 enter_key [], Wait 1400] useRingInput_init)
     = []
   \<and> \<not> isLongPressing
        (state (input_run all_handlers [KeyPress 1000 enter_key [], Wait 1400]
           useRingInput_init))"
  by (simp add: dispatcher_defs run_timers.simps)

text \<open>
  C6. In every reachable state in which a press is pending and the last press is less
  than 250 ms old, an activate press dispatches exactly one doublePress (and invokes
  the doublePress callback when there is one) and nothing else; afterwards no timeout
  is pending, both timer refs are null and no press is pending, so that no later
  passing of time dispatches press or anything else for the pair.
\<close>

theorem double_press_dispatch:
  assumes "d = input_run hs es useRingInput_init"
    and "pendingPressRef d" and "now - lastPressRef d < DOUBLE_PRESS_WINDOW"
    and "is_activate key input"
    and "d' = input_step hs (KeyPress now key input) d"
  shows "effects d' = effects d
           @ (Dispatched DoublePress # (if onDoublePress hs then [Called DoublePress] else []))
       \<and> timers d' = [] \<and> longPressTimerRef d' = None \<and> doublePressTimerRef d' = None
       \<and> \<not> pendingPressRef d'
       \<and> (\<forall>T. effects (input_step hs (Wait T) d') = effects d')"
proof -
  have ok: "timers_ok d" unfolding assms(1) by (rule reachable_ok)
  have "run_timers hs now d = d" by (rule nothing_due_in_window [OF ok assms(3)])
  moreover have "on_input hs now key input d = press_variants hs now d"
    using assms(4) by (simp add: on_input_def is_activate_def)
  ultimately have d': "d' = press_variants hs now d" by (simp add: assms(5))
  note pv = press_variants_double [OF ok assms(2,3), of hs]
  have "run_timers hs T d' = d'" for T
    unfolding d' by (rule run_timers_empty) (rule pv(1))
  with pv show ?thesis by (simp add: d' dispatched_def)
qed

theorem double_press_dispatch_witness:
  "pendingPressRef (input_run all_handlers [KeyPress 1000 enter_key []] useRingInput_init)
   \<and> 1100 - lastPressRef (input_run all_handlers [KeyPress 1000 enter_key []] useRingInput_init)
       < DOUBLE_PRESS_WINDOW
   \<and> is_activate enter_key []
   \<and> effects (input_run all_handlers
        [KeyPress 1000 enter_key [], KeyPress 1100 enter_key [], Wait 5000] useRingInput_init)
       = [Dispatched DoublePress, Called DoublePress]"
proof -
  let ?d = "input_run all_handlers [KeyPress 1000 enter_key []] useRingInput_init"
  have h: "pendingPressRef ?d" "1100 - lastPressRef ?d < DOUBLE_PRESS_WINDOW"
    "is_activate enter_key []"
    by (simp_all add: dispatcher_defs run_timers.simps is_activate_def)
  have e: "effects ?d = []"
    by (simp add: dispatcher_defs run_timers.simps)
  from double_press_dispatch [OF refl h refl] e h show ?thesis
    by (simp add: all_handlers_def)
qed

text \<open>
  C9. After any sequence of events, unmounting the dispatcher leaves no timeout
  pending, and whatever time passes afterwards nothing more is dispatched and no
  callback runs. In particular a single activate press followed by unmounting before
  its double-press deadline dispatches nothing at all.
\<close>

theorem unmount_cancels_timers:
  "timers (input_run hs (es @ [Unmount t]) useRingInput_init) = []
   \<and> effects (input_run hs (es @ [Unmount t, Wait T]) useRingInput_init)
       = effects (input_run hs (es @ [Unmount t]) useRingInput_init)
   \<and> (t < t0 + DOUBLE_PRESS_WINDOW \<longrightarrow>
        effects (input_run hs [KeyPress t0 enter_key [], Unmount t, Wait T] useRingInput_init) = [])"
proof -
  let ?d = "input_run hs es useRingInput_init"
  have ok: "timers_ok (run_timers hs t ?d)" by (rule run_timers_ok) (rule reachable_ok)
  have e: "timers (input_run hs (es @ [Unmount t]) useRingInput_init) = []"
    using clearTimers_empties(1) [OF ok] by (simp add: input_run_append)
  have "input_run hs (es @ [Unmount t, Wait T]) useRingInput_init
      = run_timers hs T (input_run hs (es @ [Unmount t]) useRingInput_init)"
    by (simp add: input_run_append)
  also have "\<dots> = input_run hs (es @ [Unmount t]) useRingInput_init"
    by (rule run_timers_empty) (rule e)
  finally have w: "input_run hs (es @ [Unmount t, Wait T]) useRingInput_init
      = input_run hs (es @ [Unmount t]) useRingInput_init" .
  have x: "effects (input_run hs [KeyPress t0 enter_key [], Unmount t, Wait T] useRingInput_init) = []"
    if "t < t0 + DOUBLE_PRESS_WINDOW"
  proof -
    let ?p = "input_run hs [KeyPress t0 enter_key []] useRingInput_init"
    have p: "?p = press_variants hs t0 useRingInput_init"
      by (simp add: run_timers_empty on_input_def enter_key_def no_key_def)
        (simp add: useRingInput_init_def run_timers_empty)
    have okp: "timers_ok ?p" by (rule reachable_ok)
    have "\<not> (t0 - lastPressRef useRingInput_init < DOUBLE_PRESS_WINDOW \<and> pendingPressRef useRingInput_init)"
      by (simp add: useRingInput_init_def)
    note ps = press_variants_single [OF timers_ok_init this, of hs]
    have "lastPressRef ?p = t0"
      unfolding p by (simp add: press_variants_def setTimeout_def useRingInput_init_def Let_def)
    with that have "t - lastPressRef ?p < DOUBLE_PRESS_WINDOW" by simp
    from nothing_due_in_window [OF okp this] have r: "run_timers hs t ?p = ?p" .
    have "input_run hs [KeyPress t0 enter_key [], Unmount t] useRingInput_init = clearTimers ?p"
      using r by simp
    moreover have "effects (clearTimers ?p) = []"
      using clearTimers_empties(4) [OF okp] ps(2) p by (simp add: useRingInput_init_def)
    moreover have "timers (clearTimers ?p) = []" by (rule clearTimers_empties(1) [OF okp])
    ultimately show ?thesis
      using input_run_append [of hs "[KeyPress t0 enter_key [], Unmount t]" "[Wait T]" useRingInput_init]
      by (simp add: run_timers_empty)
  qed
  from e w x show ?thesis by simp
qed

theorem unmount_cancels_timers_witness:
  "(1100::int) < 1000 + DOUBLE_PRESS_WINDOW
   \<and> timers (input_run all_handlers [KeyPress 1000 enter_key [], Unmount 1100]
        useRingInput_init) = []
   \<and> effects (input_run all_handlers [KeyPress 1000 enter_key [], Unmount 1100, Wait 5000]
        useRingInput_init) = []"
proof -
  have h: "(1100::int) < 1000 + DOUBLE_PRESS_WINDOW"
    by (simp add: DOUBLE_PRESS_WINDOW_def)
  note u = unmount_cancels_timers [of all_handlers "[KeyPress 1000 enter_key []]" 1100 5000 1000]
  have a: "timers (input_run all_handlers [KeyPress 1000 enter_key [], Unmount 1100]
        useRingInput_init) = []"
    using u [THEN conjunct1] by (simp only: append.simps)
  have b: "effects (input_run all_handlers [KeyPress 1000 enter_key [], Unmount 1100, Wait 5000]
        useRingInput_init) = []"
    by (rule u [THEN conjunct2, THEN conjunct2, THEN mp, OF h])
  from h a b show ?thesis by (intro conjI)
qed

text \<open>
  C10. A key event that reaches the Escape branch of the handler, by the escape flag or
  by the input q, dispatches escape when the caller supplied an escape handler and
  exits the application otherwise; the q key and the Escape key leave the dispatcher
  in the same state.
\<close>

theorem quit_key_like_escape:
  assumes "is_escape key input"
  shows "on_input hs now key input d
           = (if onEscape hs then dispatch hs Escape d else d\<lparr>effects := effects d @ [Exited]\<rparr>)
       \<and> effects (on_input hs now key input d)
           = effects d @ (if onEscape hs then [Dispatched Escape, Called Escape] else [Exited])
       \<and> on_input hs now no_key ''q'' d = on_input hs now escape_key [] d
       \<and> input_step hs (KeyPress now no_key ''q'') d = input_step hs (KeyPress now escape_key []) d"
  using assms
  by (simp add: on_input_def is_escape_def dispatch_def no_key_def escape_key_def)


theorem quit_key_like_escape_witness:
  "is_escape no_key ''q''
   \<and> effects (on_input all_handlers 0 no_key ''q'' useRingInput_init)
       = [Dispatched Escape, Called Escape]
   \<and> effects (on_input (all_handlers\<lparr>onEscape := False\<rparr>) 0 no_key ''q'' useRingInput_init)
       = [Exited]"
proof -
  have h: "is_escape no_key ''q''"
    by (simp add: is_escape_def no_key_def)
  have a: "effects (on_input all_handlers 0 no_key ''q'' useRingInput_init)
       = [Dispatched Escape, Called Escape]"
    using quit_key_like_escape [OF h, of all_handlers 0 useRingInput_init,
        THEN conjunct2, THEN conjunct1]
    by (simp add: all_handlers_def useRingInput_init_def)
  have b: "effects (on_input (all_handlers\<lparr>onEscape := False\<rparr>) 0 no_key ''q''
        useRingInput_init) = [Exited]"
    using quit_key_like_escape [OF h, of "all_handlers\<lparr>onEscape := False\<rparr>" 0
        useRingInput_init, THEN conjunct2, THEN conjunct1]
    by (simp add: all_handlers_def useRingInput_init_def)
  from h a b show ?thesis by (intro conjI)
qed

end
